theory Spec2Isabelle
  imports Complex_Main "HOL-Library.Sublist"
begin

section \<open>Python values shared by the scripts\<close>

text \<open>
  Exceptions are values. The built-in classes the scripts can meet are constructors of their
  own; \<open>Exception msg\<close> is any other instance of class \<open>Exception\<close> raised by an external
  library call, with \<open>msg\<close> what \<open>str(e)\<close> returns. All of them are subclasses of
  \<open>Exception\<close>, so an \<open>except Exception\<close> clause catches every value of this type.
\<close>

datatype py_error =
    ValueError
  | IndexError
  | ZeroDivisionError
  | OverflowError
  | AttributeError
  | TypeError
  | Exception string

section \<open>bv\_19998.py: metadata of a large Bernstein-Vazirani circuit\<close>

text \<open>
  The dictionary returned by \<open>create_large_bv_circuit\<close>, one field per key. \<open>num_cx\<close> and
  \<open>depth\<close> hold \<open>str.count\<close> results, which are never negative.
\<close>

record circuit_meta =
  n_qubits :: int
  hidden_string :: string
  num_cx :: nat
  depth :: nat
  total_gates :: int


text \<open>
  The loop \<open>for pos in positions: hidden_string[pos] = '1'\<close> on the list of characters.
  An index outside the list raises \<open>IndexError\<close>.
\<close>

fun set_ones :: "char list \<Rightarrow> nat list \<Rightarrow> py_error + char list" where
  "set_ones hs [] = Inr hs"
| "set_ones hs (pos # positions) =
     (if pos < length hs then set_ones (hs[pos := CHR ''1'']) positions else Inl IndexError)"

text \<open>The dictionary literal of the \<open>return\<close> statement.\<close>

definition bv_meta :: "int \<Rightarrow> string \<Rightarrow> circuit_meta" where
  "bv_meta n hs =
     \<lparr> n_qubits = n,
       hidden_string = hs,
       num_cx = count_list hs CHR ''1'',
       depth = 2 + count_list hs CHR ''1'',
       total_gates = 2 * n + 1 + int (count_list hs CHR ''1'') \<rparr>"

text \<open>
  \<open>create_large_bv_circuit(n_qubits, hidden_string=None)\<close>. The third argument is the list
  \<open>random.sample\<close> returns; it is read only when no hidden string is supplied.
  \<open>['0'] * n_qubits\<close> is the empty list for a negative \<open>n_qubits\<close>.
\<close>

definition create_large_bv_circuit ::
  "int \<Rightarrow> string option \<Rightarrow> nat list \<Rightarrow> py_error + circuit_meta" where
  "create_large_bv_circuit n hs_opt positions =
     (case hs_opt of
        Some hs \<Rightarrow> Inr (bv_meta n hs)
      | None \<Rightarrow>
          (let num_ones = n div 10 in
           if num_ones < 0 \<or> n < num_ones then Inl ValueError
           else
             (case set_ones (replicate (nat n) CHR ''0'') positions of
                Inl e \<Rightarrow> Inl e
              | Inr hs \<Rightarrow> Inr (bv_meta n hs))))"

section \<open>Python's float division of integers\<close>

text \<open>
  \<open>estimate_sabre_performance\<close> computes \<open>int(num_cx * avg_distance / 3)\<close>. The operands of
  \<open>/\<close> are Python integers, so the quotient is the IEEE 754 double nearest to the exact
  quotient (ties to even), as CPython's integer true division guarantees, and \<open>int\<close>
  truncates that double towards zero. A finite double is a pair of an integer mantissa and
  an exponent, standing for \<open>mant * 2 ^ expo\<close>.
\<close>

datatype py_float = PyFloat (mant: int) (expo: int)

text \<open>\<open>int.bit_length()\<close>: the number of binary digits of a natural number.\<close>

fun bit_length :: "nat \<Rightarrow> nat" where
  "bit_length n = (if n = 0 then 0 else Suc (bit_length (n div 2)))"

declare bit_length.simps [simp del]

text \<open>The integer \<open>l\<close> with \<open>2 ^ l \<le> a / b < 2 ^ (l + 1)\<close>, for positive \<open>a\<close> and \<open>b\<close>.\<close>

definition floor_log2 :: "nat \<Rightarrow> nat \<Rightarrow> int" where
  "floor_log2 a b =
     (let l = int (bit_length a) - int (bit_length b) in
      if (if 0 \<le> l then b * 2 ^ nat l \<le> a else b \<le> a * 2 ^ nat (- l)) then l else l - 1)"

text \<open>The integer nearest to \<open>a / b\<close>, a tie going to the even neighbour.\<close>

definition round_half_even :: "nat \<Rightarrow> nat \<Rightarrow> nat" where
  "round_half_even a b =
     (let q = a div b; r = a mod b in
      if 2 * r < b then q else if b < 2 * r then q + 1 else if even q then q else q + 1)"

text \<open>
  \<open>a / b\<close> for Python integers: \<open>ZeroDivisionError\<close> for \<open>b = 0\<close>; otherwise the quotient
  rounded to 53 significant bits (fewer below \<open>2 ^ -1022\<close>, where the exponent stops at
  \<open>-1074\<close>), and \<open>OverflowError\<close> when the rounded quotient reaches \<open>2 ^ 1024\<close>.
\<close>

definition int_true_divide :: "int \<Rightarrow> int \<Rightarrow> py_error + py_float" where
  "int_true_divide a b =
     (if b = 0 then Inl ZeroDivisionError
      else if a = 0 then Inr (PyFloat 0 0)
      else
        (let n = nat \<bar>a\<bar>; d = nat \<bar>b\<bar>;
             e = max (floor_log2 n d - 52) (- 1074);
             m = (if 0 \<le> e then round_half_even n (d * 2 ^ nat e)
                  else round_half_even (n * 2 ^ nat (- e)) d)
         in if 0 \<le> e \<and> 2 ^ 1024 \<le> m * 2 ^ nat e then Inl OverflowError
            else Inr (PyFloat (sgn a * sgn b * int m) e)))"

text \<open>\<open>int(x)\<close> for a finite double: truncation towards zero.\<close>

definition float_to_int :: "py_float \<Rightarrow> int" where
  "float_to_int x =
     (if 0 \<le> expo x then mant x * 2 ^ nat (expo x)
      else sgn (mant x) * (\<bar>mant x\<bar> div 2 ^ nat (- expo x)))"


section \<open>bv\_19998.py: the closed-form estimate\<close>

text \<open>
  \<open>estimate_sabre_performance(circuit_meta, coupling_map)\<close>. The coupling map is never read.
  The loop of matrix products between the two clock readings changes no variable the
  result depends on; \<open>transpile_time\<close>, the difference of the two readings, is an argument
  of the model.
\<close>

definition estimate_sabre_performance ::
  "circuit_meta \<Rightarrow> 'c \<Rightarrow> 't \<Rightarrow> py_error + (int \<times> int \<times> 't)" where
  "estimate_sabre_performance circuit_meta coupling_map transpile_time =
     (let avg_distance = 2 in
      case int_true_divide (int (num_cx circuit_meta) * avg_distance) 3 of
        Inl e \<Rightarrow> Inl e
      | Inr x \<Rightarrow>
          (let estimated_swaps = float_to_int x;
               estimated_depth = int (depth circuit_meta) + estimated_swaps * 3
           in Inr (estimated_swaps, estimated_depth, transpile_time)))"

section \<open>Circuits and the external calls\<close>

text \<open>
  A \<open>QuantumCircuit\<close> as the scripts read it: its size and the list \<open>qc.data\<close> of
  instructions, each with the name of its operation and the qubits and classical bits it
  acts on.
\<close>

record instruction =
  operation_name :: string
  qargs :: "nat list"
  cargs :: "nat list"

record quantum_circuit =
  num_qubits :: nat
  num_clbits :: nat
  data :: "instruction list"

type_synonym coupling_map = "(nat \<times> nat) list"

text \<open>
  What the scripts call and do not define. The state \<open>'w\<close> stands for everything outside
  the script that a call may read or change (the random generators, the clock). A call to
  the optimizer, \<open>PassManager([SabreLayout(cm), SabreSwap(cm)]).run(qc)\<close>, returns a circuit
  or raises, and leaves a new state. \<open>elapsed w w'\<close> is \<open>time.time() - start_time\<close> with the
  first reading taken in \<open>w\<close> and the second in \<open>w'\<close>. \<open>float_average ts\<close> is
  \<open>sum(ts) / len(ts)\<close> in Python's float arithmetic, for a list \<open>ts\<close> of floats that is
  not empty.
\<close>

record 'w qiskit =
  pass_manager_run :: "coupling_map \<Rightarrow> 'w \<Rightarrow> quantum_circuit \<Rightarrow> (py_error + quantum_circuit) \<times> 'w"
  circuit_depth :: "quantum_circuit \<Rightarrow> int"
  quantum_volume :: "int \<Rightarrow> int \<Rightarrow> int \<Rightarrow> quantum_circuit"
  washington_coupling_map :: coupling_map
  random_choice :: "'w \<Rightarrow> string \<Rightarrow> char \<times> 'w"
  elapsed :: "'w \<Rightarrow> 'w \<Rightarrow> py_float"
  float_average :: "py_float list \<Rightarrow> py_float"

text \<open>
  The loop shared by the scripts:
  \<^verbatim>\<open>for instruction in transpiled_qc.data:
    if instruction.operation.name == 'swap': swap_count += 1\<close>
\<close>

definition count_swaps :: "quantum_circuit \<Rightarrow> int" where
  "count_swaps transpiled_qc =
     fold (\<lambda>instruction swap_count.
             if operation_name instruction = ''swap'' then swap_count + 1 else swap_count)
       (data transpiled_qc) 0"

section \<open>qv\_10\_5-\_d10\_25.py: Quantum Volume benchmark\<close>

text \<open>
  \<open>generate_qv_circuits\<close>: three nested loops, the seed computed from the parameters.
\<close>

definition generate_qv_circuits ::
  "'w qiskit \<Rightarrow> int list \<Rightarrow> int list \<Rightarrow> nat \<Rightarrow> quantum_circuit list \<times> (int \<times> int \<times> int) list" where
  "generate_qv_circuits env qubit_range depth_range num_circuits =
     (let params =
        concat (map (\<lambda>nq.
          concat (map (\<lambda>dp.
            map (\<lambda>i. (nq, dp, int i)) [0..<num_circuits]) depth_range)) qubit_range)
      in (map (\<lambda>(nq, dp, i). quantum_volume env nq dp (i + nq * 100 + dp * 10000)) params,
          params))"

text \<open>
  \<open>best_swap_count\<close> starts as \<open>float('inf')\<close> and is an integer after the first
  improvement.
\<close>

datatype py_num = PyInt int | PyInf

fun num_less :: "int \<Rightarrow> py_num \<Rightarrow> bool" where
  "num_less a PyInf = True"
| "num_less a (PyInt b) = (a < b)"

text \<open>
  The body of \<open>for _ in range(num_trials)\<close>, run \<open>k\<close> more times from the current best.
  An exception of the optimizer leaves the loop and the function.
\<close>

fun sabre_trials ::
  "'w qiskit \<Rightarrow> coupling_map \<Rightarrow> quantum_circuit \<Rightarrow> nat \<Rightarrow> 'w \<Rightarrow>
     quantum_circuit option \<times> py_num \<Rightarrow>
     (py_error + quantum_circuit option \<times> py_num) \<times> 'w" where
  "sabre_trials env cm qc 0 w best = (Inr best, w)"
| "sabre_trials env cm qc (Suc k) w (best_circuit, best_swap_count) =
     (case pass_manager_run env cm w qc of
        (Inl e, w') \<Rightarrow> (Inl e, w')
      | (Inr transpiled_qc, w') \<Rightarrow>
          (let swap_count = count_swaps transpiled_qc in
           if num_less swap_count best_swap_count
           then sabre_trials env cm qc k w' (Some transpiled_qc, PyInt swap_count)
           else sabre_trials env cm qc k w' (best_circuit, best_swap_count)))"

text \<open>
  \<open>transpile_with_sabre(qc, coupling_map, num_trials=1)\<close> of the Quantum Volume script.
  \<open>range(num_trials)\<close> is empty for \<open>num_trials \<le> 0\<close>.
\<close>

definition transpile_with_sabre ::
  "'w qiskit \<Rightarrow> quantum_circuit \<Rightarrow> coupling_map \<Rightarrow> int \<Rightarrow> 'w \<Rightarrow>
     (py_error + quantum_circuit option \<times> py_num \<times> py_float) \<times> 'w" where
  "transpile_with_sabre env qc cm num_trials w =
     (case sabre_trials env cm qc (nat num_trials) w (None, PyInf) of
        (Inl e, w') \<Rightarrow> (Inl e, w')
      | (Inr (best_circuit, best_swap_count), w') \<Rightarrow>
          (Inr (best_circuit, best_swap_count, elapsed env w w'), w'))"

text \<open>The dictionary of one Quantum Volume result.\<close>

record qv_result =
  qv_qubits :: int
  qv_depth :: int
  qv_circuit_idx :: int
  qv_swap_count :: py_num
  qv_transpile_time :: py_float
  qv_original_depth :: int
  qv_transpiled_depth :: int

text \<open>
  The dictionary literal in the loop of \<open>benchmark_qv_circuits\<close>, built from what
  \<open>transpile_with_sabre\<close> returned. \<open>transpiled_qc.depth()\<close> on \<open>None\<close> raises
  \<open>AttributeError\<close>.
\<close>

definition qv_record ::
  "'w qiskit \<Rightarrow> quantum_circuit \<Rightarrow> int \<times> int \<times> int \<Rightarrow>
     quantum_circuit option \<times> py_num \<times> py_float \<Rightarrow> py_error + qv_result" where
  "qv_record env qc params ret =
     (case (params, ret) of
        ((nq, dp, idx), (transpiled_qc, best_swap_count, time)) \<Rightarrow>
          (case transpiled_qc of
             None \<Rightarrow> Inl AttributeError
           | Some t \<Rightarrow>
               Inr \<lparr> qv_qubits = nq, qv_depth = dp, qv_circuit_idx = idx,
                     qv_swap_count = best_swap_count, qv_transpile_time = time,
                     qv_original_depth = circuit_depth env qc,
                     qv_transpiled_depth = circuit_depth env t \<rparr>))"

text \<open>What the Quantum Volume script prints.\<close>

datatype qv_output =
    Qv_generating
  | Qv_generated nat
  | Qv_running
  | Qv_processing nat nat "int \<times> int \<times> int"
  | Qv_result qv_result

text \<open>
  The loop \<open>for i, (qc, (n_qubits, depth, idx)) in enumerate(zip(circuits, params))\<close>.
  There is no \<open>try\<close> in it: an exception of \<open>transpile_with_sabre\<close> leaves the loop and
  \<open>benchmark_qv_circuits\<close>. The state is the outside world, the list \<open>results\<close> and the
  lines printed so far; \<open>len\<close> is \<open>len(circuits)\<close>.
\<close>

fun qv_loop ::
  "'w qiskit \<Rightarrow> coupling_map \<Rightarrow> nat \<Rightarrow> nat \<Rightarrow>
     (quantum_circuit \<times> (int \<times> int \<times> int)) list \<Rightarrow>
     'w \<times> qv_result list \<times> qv_output list \<Rightarrow>
     py_error + 'w \<times> qv_result list \<times> qv_output list" where
  "qv_loop env cm len i [] st = Inr st"
| "qv_loop env cm len i ((qc, params) # rest) (w, results, out) =
     (let out1 = out @ [Qv_processing (i + 1) len params] in
      case transpile_with_sabre env qc cm 1 w of
        (Inl e, w') \<Rightarrow> Inl e
      | (Inr ret, w') \<Rightarrow>
          (case qv_record env qc params ret of
             Inl e \<Rightarrow> Inl e
           | Inr result \<Rightarrow>
               qv_loop env cm len (i + 1) rest
                 (w', results @ [result], out1 @ [Qv_result result])))"

text \<open>
  \<open>benchmark_qv_circuits()\<close>. On return the list \<open>results\<close> has also been written, one
  dictionary per line, to \<open>qv_benchmark_results.txt\<close>.
\<close>

definition benchmark_qv_circuits ::
  "'w qiskit \<Rightarrow> 'w \<Rightarrow> py_error + 'w \<times> qv_result list \<times> qv_output list" where
  "benchmark_qv_circuits env w =
     (let qubit_range = [10, 15, 20, 25, 30];
          depth_range = [10, 15, 20, 25];
          num_circuits_per_config = 10;
          coupling_map = washington_coupling_map env;
          (circuits, params) =
            generate_qv_circuits env qubit_range depth_range num_circuits_per_config
      in qv_loop env coupling_map (length circuits) 0 (zip circuits params)
           (w, [], [Qv_generating, Qv_generated (length circuits), Qv_running]))"

section \<open>bv\_algo.py: Bernstein-Vazirani benchmark\<close>

text \<open>\<open>''.join(random.choice('01') for _ in range(n_qubits))\<close>.\<close>

fun random_string :: "'w qiskit \<Rightarrow> nat \<Rightarrow> 'w \<Rightarrow> string \<times> 'w" where
  "random_string env 0 w = ([], w)"
| "random_string env (Suc k) w =
     (case random_choice env w ''01'' of
        (c, w') \<Rightarrow> (case random_string env k w' of (cs, w'') \<Rightarrow> (c # cs, w'')))"

definition gate :: "string \<Rightarrow> nat list \<Rightarrow> instruction" where
  "gate nm qs = \<lparr> operation_name = nm, qargs = qs, cargs = [] \<rparr>"

text \<open>
  \<open>create_bv_circuit(n_qubits, hidden_string=None)\<close>: an X on the ancilla, a layer of
  Hadamards, one CNOT per \<open>'1'\<close> of the hidden string, Hadamards on the inputs and one
  measurement per input. Reading \<open>hidden_string[i]\<close> past the end of a supplied string
  raises \<open>IndexError\<close>.
\<close>

definition create_bv_circuit ::
  "'w qiskit \<Rightarrow> nat \<Rightarrow> string option \<Rightarrow> 'w \<Rightarrow> py_error + (quantum_circuit \<times> string) \<times> 'w" where
  "create_bv_circuit env n hs_opt w =
     (case (case hs_opt of None \<Rightarrow> random_string env n w | Some hs \<Rightarrow> (hs, w)) of
        (hs, w') \<Rightarrow>
          if length hs < n then Inl IndexError
          else Inr ((\<lparr> num_qubits = n + 1, num_clbits = n,
                       data = [gate ''x'' [n]]
                         @ map (\<lambda>i. gate ''h'' [i]) [0..<n + 1]
                         @ map (\<lambda>i. gate ''cx'' [i, n])
                             (filter (\<lambda>i. hs ! i = CHR ''1'') [0..<n])
                         @ map (\<lambda>i. gate ''h'' [i]) [0..<n]
                         @ map (\<lambda>i. \<lparr> operation_name = ''measure'', qargs = [i], cargs = [i] \<rparr>)
                             [0..<n] \<rparr>,
                     hs), w'))"

text \<open>\<open>transpile_with_sabre(qc, coupling_map)\<close> of bv\_algo.py: one run of the optimizer.\<close>

definition transpile_with_sabre_bv ::
  "'w qiskit \<Rightarrow> quantum_circuit \<Rightarrow> coupling_map \<Rightarrow> 'w \<Rightarrow>
     (py_error + quantum_circuit \<times> py_float \<times> int) \<times> 'w" where
  "transpile_with_sabre_bv env qc cm w =
     (case pass_manager_run env cm w qc of
        (Inl e, w') \<Rightarrow> (Inl e, w')
      | (Inr transpiled_qc, w') \<Rightarrow>
          (Inr (transpiled_qc, elapsed env w w', count_swaps transpiled_qc), w'))"

record bv_result =
  qubits :: nat
  circuit_idx :: nat
  bv_hidden_string :: string
  swap_count :: int
  transpile_time :: py_float
  original_depth :: int
  transpiled_depth :: int
  original_size :: nat
  transpiled_size :: nat

text \<open>The three averages printed for one qubit count.\<close>

record bv_summary =
  sum_qubits :: nat
  avg_swap :: py_float
  avg_time :: py_float
  avg_depth_increase :: py_float

text \<open>What the Bernstein-Vazirani script prints.\<close>

datatype bv_output =
    Bv_running
  | Bv_testing nat
  | Bv_circuit nat nat string
  | Bv_result bv_result
  | Bv_error py_error
  | Bv_summary_header
  | Bv_summary bv_summary

text \<open>
  The inner loop \<open>for i in range(num_circuits_per_size)\<close>, over the indices still to run.
  \<open>create_bv_circuit\<close> is called outside the \<open>try\<close>; the call of \<open>transpile_with_sabre\<close>
  and the recording are inside it, and \<open>except Exception as e\<close> prints the error.
\<close>

fun bv_inner ::
  "'w qiskit \<Rightarrow> coupling_map \<Rightarrow> nat \<Rightarrow> nat \<Rightarrow> nat list \<Rightarrow>
     'w \<times> bv_result list \<times> bv_output list \<Rightarrow>
     py_error + 'w \<times> bv_result list \<times> bv_output list" where
  "bv_inner env cm num n [] st = Inr st"
| "bv_inner env cm num n (i # rest) (w, results, out) =
     (case create_bv_circuit env n None w of
        Inl e \<Rightarrow> Inl e
      | Inr ((qc, hs), w1) \<Rightarrow>
          (let out1 = out @ [Bv_circuit (i + 1) num hs] in
           case transpile_with_sabre_bv env qc cm w1 of
             (Inl e, w2) \<Rightarrow> bv_inner env cm num n rest (w2, results, out1 @ [Bv_error e])
           | (Inr (transpiled_qc, time, swaps), w2) \<Rightarrow>
               (let result =
                  \<lparr> qubits = n, circuit_idx = i, bv_hidden_string = hs,
                    swap_count = swaps, transpile_time = time,
                    original_depth = circuit_depth env qc,
                    transpiled_depth = circuit_depth env transpiled_qc,
                    original_size = length (data qc),
                    transpiled_size = length (data transpiled_qc) \<rparr>
                in bv_inner env cm num n rest
                     (w2, results @ [result], out1 @ [Bv_result result]))))"

text \<open>The outer loop \<open>for n_qubits in qubit_range\<close>.\<close>

fun bv_outer ::
  "'w qiskit \<Rightarrow> coupling_map \<Rightarrow> nat \<Rightarrow> nat list \<Rightarrow>
     'w \<times> bv_result list \<times> bv_output list \<Rightarrow>
     py_error + 'w \<times> bv_result list \<times> bv_output list" where
  "bv_outer env cm num [] st = Inr st"
| "bv_outer env cm num (n # rest) (w, results, out) =
     (case bv_inner env cm num n [0..<num] (w, results, out @ [Bv_testing n]) of
        Inl e \<Rightarrow> Inl e
      | Inr st \<Rightarrow> bv_outer env cm num rest st)"

text \<open>
  The body of the summary loop for one qubit count \<open>n\<close>: \<open>None\<close> when no record has this
  count and nothing is printed. The two sums of integers are exact; each \<open>/\<close> is a float
  division and raises \<open>OverflowError\<close> when the quotient is too large for a float.
\<close>

definition qubit_summary ::
  "'w qiskit \<Rightarrow> bv_result list \<Rightarrow> nat \<Rightarrow> (py_error + bv_summary) option" where
  "qubit_summary env results n =
     (let qubit_results = filter (\<lambda>r. qubits r = n) results in
      if qubit_results = [] then None
      else Some
        (case int_true_divide (sum_list (map swap_count qubit_results))
                (int (length qubit_results)) of
           Inl e \<Rightarrow> Inl e
         | Inr a \<Rightarrow>
             (case int_true_divide
                     (sum_list (map (\<lambda>r. transpiled_depth r - original_depth r) qubit_results))
                     (int (length qubit_results)) of
                Inl e \<Rightarrow> Inl e
              | Inr d \<Rightarrow>
                  Inr \<lparr> sum_qubits = n, avg_swap = a,
                        avg_time = float_average env (map transpile_time qubit_results),
                        avg_depth_increase = d \<rparr>)))"

text \<open>The loop \<open>for n_qubits in qubit_range\<close> of the summary.\<close>

fun summary_statistics ::
  "'w qiskit \<Rightarrow> bv_result list \<Rightarrow> nat list \<Rightarrow> py_error + bv_summary list" where
  "summary_statistics env results [] = Inr []"
| "summary_statistics env results (n # rest) =
     (case qubit_summary env results n of
        None \<Rightarrow> summary_statistics env results rest
      | Some (Inl e) \<Rightarrow> Inl e
      | Some (Inr s) \<Rightarrow>
          (case summary_statistics env results rest of
             Inl e \<Rightarrow> Inl e
           | Inr ss \<Rightarrow> Inr (s # ss)))"

text \<open>
  \<open>benchmark_bv_circuits()\<close>. Before the summary the list \<open>results\<close> has been written, one
  dictionary per line, to \<open>bv_benchmark_results.txt\<close>.
\<close>

definition benchmark_bv_circuits ::
  "'w qiskit \<Rightarrow> 'w \<Rightarrow> py_error + 'w \<times> bv_result list \<times> bv_output list" where
  "benchmark_bv_circuits env w =
     (let qubit_range = [5, 10, 15, 20, 25, 30, 35, 40, 45, 50];
          num_circuits_per_size = 5;
          coupling_map = washington_coupling_map env
      in case bv_outer env coupling_map num_circuits_per_size qubit_range
                (w, [], [Bv_running]) of
           Inl e \<Rightarrow> Inl e
         | Inr (w', results, out) \<Rightarrow>
             (case summary_statistics env results qubit_range of
                Inl e \<Rightarrow> Inl e
              | Inr ss \<Rightarrow> Inr (w', results, out @ Bv_summary_header # map Bv_summary ss)))"

text \<open>
  For the statement of what the trials return: the results of \<open>k\<close> successive calls of the
  optimizer on \<open>qc\<close>, each leaving the state for the next.
\<close>

fun invocations ::
  "'w qiskit \<Rightarrow> coupling_map \<Rightarrow> quantum_circuit \<Rightarrow> nat \<Rightarrow> 'w \<Rightarrow>
     (py_error + quantum_circuit) list \<times> 'w" where
  "invocations env cm qc 0 w = ([], w)"
| "invocations env cm qc (Suc k) w =
     (case pass_manager_run env cm w qc of
        (r, w') \<Rightarrow> (case invocations env cm qc k w' of (rs, w'') \<Rightarrow> (r # rs, w'')))"

text \<open>One trial that returned \<open>c\<close>, seen from the pair of best circuit and best count.\<close>

definition best_step ::
  "quantum_circuit \<Rightarrow> quantum_circuit option \<times> py_num \<Rightarrow> quantum_circuit option \<times> py_num" where
  "best_step c best =
     (if num_less (count_swaps c) (snd best) then (Some c, PyInt (count_swaps c)) else best)"

text \<open>The lines \<open>Error: ...\<close> among the printed lines.\<close>

fun is_bv_error :: "bv_output \<Rightarrow> bool" where
  "is_bv_error (Bv_error e) = True"
| "is_bv_error l = False"

section \<open>A concrete environment for the examples\<close>

text \<open>
  The outside state counts the optimizer calls made so far, and the call number \<open>w\<close>
  returns (or raises) \<open>outcome w\<close>. \<open>example_circuit k\<close> is a circuit of \<open>k\<close> swap gates.
\<close>

definition example_circuit :: "nat \<Rightarrow> quantum_circuit" where
  "example_circuit k =
     \<lparr> num_qubits = 2, num_clbits = 0, data = replicate k (gate ''swap'' [0, 1]) \<rparr>"

definition example_env :: "(nat \<Rightarrow> py_error + quantum_circuit) \<Rightarrow> nat qiskit" where
  "example_env outcome =
     \<lparr> pass_manager_run = (\<lambda>cm w qc. (outcome w, Suc w)),
       circuit_depth = (\<lambda>qc. int (length (data qc))),
       quantum_volume = (\<lambda>nq dp seed. example_circuit 0),
       washington_coupling_map = [(0, 1)],
       random_choice = (\<lambda>w s. (hd s, w)),
       elapsed = (\<lambda>w w'. PyFloat (int w' - int w) 0),
       float_average = (\<lambda>ts. PyFloat 0 0) \<rparr>"


text \<open>An optimizer whose call number \<open>k\<close> raises and whose other calls return.\<close>

definition fails_at :: "nat \<Rightarrow> nat \<Rightarrow> py_error + quantum_circuit" where
  "fails_at k w = (if w = k then Inl (Exception ''routing failed'') else Inr (example_circuit w))"

section \<open>error\_rate\_all\_machine.py: calibration snapshots\<close>
























section \<open>Concrete backends for the examples\<close>







section \<open>Properties of the metadata\<close>


lemma count_list_replicate_other: "c \<noteq> d \<Longrightarrow> count_list (replicate n c) d = 0"
  by (induction n) simp_all

lemma count_list_replicate_same: "count_list (replicate n c) c = n"
  by (induction n) simp_all

text \<open>
  C8: called with qubit count 5 and hidden string "10100", \<open>create_large_bv_circuit\<close> returns
  metadata with exactly 2 interaction gates and total gate count \<open>2 * 5 + 1 + 2 = 13\<close>,
  whatever the random source would have drawn.
\<close>

theorem create_large_bv_circuit_10100:
  "\<exists>m. create_large_bv_circuit 5 (Some ''10100'') positions = Inr m
       \<and> num_cx m = 2 \<and> total_gates m = 2 * 5 + 1 + 2 \<and> total_gates m = 13"
  by (simp add: create_large_bv_circuit_def bv_meta_def)



section \<open>Properties of the float division\<close>

lemma half_bounds: "(P::nat) \<le> n div 2 \<Longrightarrow> n div 2 < 2 * P \<Longrightarrow> 2 * P \<le> n \<and> n < 4 * P"
  by arith

lemma bit_length_bounds: "0 < n \<Longrightarrow> 2 ^ (bit_length n - 1) \<le> n \<and> n < 2 ^ bit_length n"
proof (induction n rule: bit_length.induct)
  case (1 n)
  show ?case
  proof (cases "n div 2 = 0")
    case True
    with "1.prems" have "n = 1" by (simp add: div_eq_0_iff) 
    then show ?thesis by (simp add: bit_length.simps)
  next
    case False
    then have ih: "2 ^ (bit_length (n div 2) - 1) \<le> n div 2" "n div 2 < 2 ^ bit_length (n div 2)"
      using "1.IH" "1.prems" by auto
    have pos: "0 < bit_length (n div 2)" using False by (simp add: bit_length.simps)
    have bl: "bit_length n = Suc (bit_length (n div 2))"
      using "1.prems" by (subst bit_length.simps) simp
    have "(2::nat) ^ (bit_length n - 1) = 2 * 2 ^ (bit_length (n div 2) - 1)"
      using pos bl by (cases "bit_length (n div 2)") simp_all
    moreover have "(2::nat) ^ bit_length n = 4 * 2 ^ (bit_length (n div 2) - 1)"
      using pos bl by (cases "bit_length (n div 2)") simp_all
    moreover define P where "P = (2::nat) ^ (bit_length (n div 2) - 1)"
    ultimately have "2 ^ (bit_length n - 1) = 2 * P" "2 ^ bit_length n = 4 * P"
      "P \<le> n div 2" "n div 2 < 2 * P"
      using ih pos by (simp_all, cases "bit_length (n div 2)", simp_all)
    then show ?thesis using half_bounds [of P n] by simp
  qed
qed


lemma bit_length_eq:
  assumes "2 ^ k \<le> n" and "n < 2 ^ Suc k"
  shows "bit_length n = Suc k"
proof -
  from assms(1) have pos: "0 < n" by (metis less_le_trans zero_less_numeral zero_less_power)
  from bit_length_bounds [OF pos]
  have lo: "2 ^ (bit_length n - 1) \<le> n" and hi: "n < 2 ^ bit_length n" by simp_all
  have "(2::nat) ^ k < 2 ^ bit_length n" using assms(1) hi by linarith
  then have a: "k < bit_length n" by (simp add: power_strict_increasing_iff)
  have "(2::nat) ^ (bit_length n - 1) < 2 ^ Suc k" using assms(2) lo by linarith
  then have "bit_length n - 1 < Suc k" by (simp only: power_strict_increasing_iff one_less_numeral_iff semiring_norm)
  with a show ?thesis by linarith
qed


lemma bit_length_Suc:
  assumes "0 < n"
  obtains k where "bit_length n = Suc k" "2 ^ k \<le> n" "n < 2 * 2 ^ k"
proof -
  from bit_length_bounds [OF assms]
  have lo: "2 ^ (bit_length n - 1) \<le> n" and hi: "n < 2 ^ bit_length n" by simp_all
  show thesis
  proof (cases "bit_length n")
    case 0
    with hi assms show ?thesis by simp
  next
    case (Suc k)
    with lo hi that [of k] show ?thesis by simp
  qed
qed

lemma powi_split:
  "(2::real) powi (int ka - int kb) = 2 ^ ka / 2 ^ kb"
  "(2::real) powi (int ka - int kb + 1) = 2 * 2 ^ ka / 2 ^ kb"
  "(2::real) powi (int ka - int kb - 1) = 2 ^ ka / (2 * 2 ^ kb)"
proof -
  show a: "(2::real) powi (int ka - int kb) = 2 ^ ka / 2 ^ kb"
    by (simp add: power_int_diff)
  show "(2::real) powi (int ka - int kb + 1) = 2 * 2 ^ ka / 2 ^ kb"
    using a by (simp add: power_int_add)
  show "(2::real) powi (int ka - int kb - 1) = 2 ^ ka / (2 * 2 ^ kb)"
    using a power_int_diff [of "2::real" "int ka - int kb" 1] by simp
qed

lemma floor_log2_bounds:
  assumes "0 < a" and "0 < b"
  shows "real b * 2 powi (floor_log2 a b) \<le> real a"
    and "real a < real b * 2 powi (floor_log2 a b + 1)"
proof -
  obtain ka where ka: "bit_length a = Suc ka" "2 ^ ka \<le> a" "a < 2 * 2 ^ ka"
    using bit_length_Suc [OF assms(1)] by blast
  obtain kb where kb: "bit_length b = Suc kb" "2 ^ kb \<le> b" "b < 2 * 2 ^ kb"
    using bit_length_Suc [OF assms(2)] by blast
  define l where "l = int ka - int kb"
  define A where "A = (2::real) ^ ka"
  define B where "B = (2::real) ^ kb"
  have AB: "0 < A" "0 < B" by (simp_all add: A_def B_def)
  have ra: "A \<le> real a" "real a < 2 * A"
  proof -
    have "real (2 ^ ka) \<le> real a" using ka(2) by (rule iffD2 [OF of_nat_le_iff])
    then show "A \<le> real a" by (simp add: A_def)
    have "real a < real (2 * 2 ^ ka)" using ka(3) by (rule iffD2 [OF of_nat_less_iff])
    then show "real a < 2 * A" by (simp add: A_def)
  qed
  have rb: "B \<le> real b" "real b < 2 * B"
  proof -
    have "real (2 ^ kb) \<le> real b" using kb(2) by (rule iffD2 [OF of_nat_le_iff])
    then show "B \<le> real b" by (simp add: B_def)
    have "real b < real (2 * 2 ^ kb)" using kb(3) by (rule iffD2 [OF of_nat_less_iff])
    then show "real b < 2 * B" by (simp add: B_def)
  qed
  have pw: "2 powi l = A / B" "2 powi (l + 1) = 2 * A / B" "2 powi (l - 1) = A / (2 * B)"
    unfolding l_def A_def B_def by (rule powi_split)+
  define t where "t \<longleftrightarrow> (if 0 \<le> l then b * 2 ^ nat l \<le> a else b \<le> a * 2 ^ nat (- l))"
  have t_real: "t \<longleftrightarrow> real b * 2 powi l \<le> real a"
  proof (cases "0 \<le> l")
    case True
    then have "2 powi l = (2::real) ^ nat l" by (simp add: power_int_def)
    moreover have "real (b * 2 ^ nat l) \<le> real a \<longleftrightarrow> b * 2 ^ nat l \<le> a" by (rule of_nat_le_iff)
    ultimately show ?thesis using True by (simp add: t_def)
  next
    case False
    then have p: "2 powi l = inverse ((2::real) ^ nat (- l))"
      by (simp add: power_int_def power_one_over [symmetric] inverse_eq_divide)
    have "real b \<le> real (a * 2 ^ nat (- l)) \<longleftrightarrow> b \<le> a * 2 ^ nat (- l)" by (rule of_nat_le_iff)
    then have "t \<longleftrightarrow> real b \<le> real a * 2 ^ nat (- l)" using False by (simp add: t_def)
    also have "\<dots> \<longleftrightarrow> real b * 2 powi l \<le> real a"
      unfolding p by (simp add: field_simps)
    finally show ?thesis .
  qed
  have fl: "floor_log2 a b = (if t then l else l - 1)"
    by (simp add: floor_log2_def Let_def t_def l_def ka(1) kb(1))
  have up: "real a < real b * 2 powi (l + 1)"
  proof -
    have "2 * A = B * (2 * A / B)" using AB by simp
    also have "\<dots> \<le> real b * (2 * A / B)"
      using rb(1) AB by (intro mult_right_mono) simp_all
    finally show ?thesis using ra(2) unfolding pw(2) by linarith
  qed
  have low: "real b * 2 powi (l - 1) \<le> real a"
  proof -
    have "real b * (A / (2 * B)) \<le> (2 * B) * (A / (2 * B))"
      using rb(2) AB by (intro mult_right_mono) simp_all
    also have "\<dots> = A" using AB by simp
    finally show ?thesis using ra(1) unfolding pw(3) by linarith
  qed
  show "real b * 2 powi (floor_log2 a b) \<le> real a"
    using fl t_real low by (cases t) simp_all
  show "real a < real b * 2 powi (floor_log2 a b + 1)"
    using fl t_real up by (cases t) simp_all
qed


lemma round_half_even_bounds:
  assumes "0 < b"
  shows "a div b \<le> round_half_even a b"
    and "round_half_even a b \<le> Suc (a div b)"
    and "2 * b * round_half_even a b \<le> 2 * a + b"
proof -
  define q where "q = a div b"
  define r where "r = a mod b"
  have a: "a = b * q + r" by (simp add: q_def r_def)
  have r: "r < b" using assms by (simp add: r_def)
  have rhe: "round_half_even a b =
      (if 2 * r < b then q else if b < 2 * r then q + 1 else if even q then q else q + 1)"
    by (simp add: round_half_even_def Let_def q_def r_def)
  show "a div b \<le> round_half_even a b" unfolding rhe q_def [symmetric] by simp
  show "round_half_even a b \<le> Suc (a div b)" unfolding rhe q_def [symmetric] by simp
  have "2 * b * round_half_even a b \<le> 2 * (b * q + r) + b"
    unfolding rhe using r by (simp add: algebra_simps)
  then show "2 * b * round_half_even a b \<le> 2 * a + b" using a by simp
qed

lemma round_scaled_div3:
  assumes "1 \<le> k"
  shows "round_half_even (n * 2 ^ k) 3 div 2 ^ k = n div 3"
proof -
  define P where "P = (2::nat) ^ k"
  define m where "m = round_half_even (n * P) 3"
  define Q where "Q = (n div 3) * P"
  define R where "R = (n mod 3) * P"
  have "(2::nat) ^ 1 \<le> 2 ^ k" using assms by (intro power_increasing) simp_all
  then have P2: "2 \<le> P" by (simp add: P_def)
  have "n * P = (3 * (n div 3) + n mod 3) * P" by simp
  then have x: "n * P = 3 * Q + R" by (simp only: Q_def R_def algebra_simps)
  have "n mod 3 \<le> 2" by simp
  then have "(n mod 3) * P \<le> 2 * P" by (rule mult_right_mono) simp
  then have R: "R \<le> 2 * P" by (simp add: R_def)
  have lo: "(n * P) div 3 \<le> m" and hi: "2 * 3 * m \<le> 2 * (n * P) + 3"
    using round_half_even_bounds [of 3 "n * P"] by (simp_all add: m_def)
  have "Q \<le> (n * P) div 3" unfolding x by simp
  with lo have l: "P * (n div 3) \<le> m" by (simp add: Q_def mult.commute)
  have "6 * m < 6 * Q + 6 * P" using hi x R P2 by linarith
  then have "m < Q + P" by simp
  then have h: "m < P * Suc (n div 3)" by (simp add: Q_def mult.commute)
  have "m div P = n div 3" using l h by (rule div_nat_eqI)
  then show ?thesis by (simp add: m_def P_def)
qed


lemma floor_log2_less:
  assumes "0 < a" "0 < b" "real a < real b * 2 powi N"
  shows "floor_log2 a b < N"
proof (rule ccontr)
  assume "\<not> floor_log2 a b < N"
  then have "(2::real) powi N \<le> 2 powi (floor_log2 a b)"
    by (intro power_int_increasing) simp_all
  then have "real b * 2 powi N \<le> real b * 2 powi (floor_log2 a b)"
    by (intro mult_left_mono) simp_all
  with floor_log2_bounds(1) [OF assms(1,2)] assms(3) show False by linarith
qed

lemma floor_log2_ge:
  assumes "0 < a" "0 < b" "real b * 2 powi N \<le> real a"
  shows "N \<le> floor_log2 a b"
proof (rule ccontr)
  assume "\<not> N \<le> floor_log2 a b"
  then have "(2::real) powi (floor_log2 a b + 1) \<le> 2 powi N"
    by (intro power_int_increasing) simp_all
  then have "real b * 2 powi (floor_log2 a b + 1) \<le> real b * 2 powi N"
    by (intro mult_left_mono) simp_all
  with floor_log2_bounds(2) [OF assms(1,2)] assms(3) show False by linarith
qed

lemma int_true_divide_pos:
  assumes "0 < n" "0 < d"
  shows "int_true_divide (int n) (int d) =
     (let e = max (floor_log2 n d - 52) (- 1074);
          m = (if 0 \<le> e then round_half_even n (d * 2 ^ nat e)
               else round_half_even (n * 2 ^ nat (- e)) d)
      in if 0 \<le> e \<and> 2 ^ 1024 \<le> m * 2 ^ nat e then Inl OverflowError
         else Inr (PyFloat (int m) e))"
  using assms by (simp add: int_true_divide_def Let_def)

lemma third_floor_exact:
  assumes "c \<le> 3 * 2 ^ 51"
  shows "\<exists>x. int_true_divide (int c * 2) 3 = Inr x \<and> float_to_int x = (int c * 2) div 3"
proof (cases "c = 0")
  case True
  then show ?thesis by (simp add: int_true_divide_def float_to_int_def)
next
  case False
  define n where "n = 2 * c"
  define E where "E = floor_log2 n 3"
  have n: "0 < n" "n \<le> 3 * 2 ^ 52" "2 \<le> n" using False assms by (simp_all add: n_def)
  have "real n < real 3 * 2 powi 53"
  proof -
    have "real n \<le> real (3 * 2 ^ 52)" using n(2) by (rule iffD2 [OF of_nat_le_iff])
    then show ?thesis by simp
  qed
  then have "E < 53" unfolding E_def using n(1) by (intro floor_log2_less) simp_all
  moreover have "real 3 * 2 powi (- 1) \<le> real n"
  proof -
    have "real 2 \<le> real n" using n(3) by (rule iffD2 [OF of_nat_le_iff])
    then show ?thesis by (simp add: power_int_minus)
  qed
  then have "- 1 \<le> E" unfolding E_def using n(1) by (intro floor_log2_ge) simp_all
  ultimately have E: "- 1 \<le> E" "E \<le> 52" by simp_all
  have itd: "int_true_divide (int c * 2) 3 = int_true_divide (int n) (int 3)"
    by (simp add: n_def mult.commute)
  have nd: "(int c * 2) div 3 = int (n div 3)"
    by (simp add: n_def mult.commute zdiv_int)
  show ?thesis
  proof (cases "E = 52")
    case True
    have "real 3 * 2 powi E \<le> real n"
      unfolding E_def using n(1) by (intro floor_log2_bounds(1)) simp_all
    then have "real (3 * 2 ^ 52) \<le> real n" using True by simp
    then have "3 * 2 ^ 52 \<le> n" by (rule iffD1 [OF of_nat_le_iff])
    with n(2) have neq: "n = 3 * 2 ^ 52" by simp
    have fl: "floor_log2 n 3 = 52" using True by (simp add: E_def)
    have rhe: "round_half_even n 3 = 2 ^ 52" by (simp add: neq round_half_even_def)
    have "(2::nat) ^ 52 < 2 ^ 1024" by (rule power_strict_increasing) simp_all
    then have no: "\<not> (2::nat) ^ 1024 \<le> 2 ^ 52" by (simp only: not_le)
    have "int_true_divide (int n) (int 3) = Inr (PyFloat (int (2 ^ 52)) 0)"
      unfolding int_true_divide_pos [OF n(1) zero_less_numeral] fl
      using no by (simp add: Let_def rhe)
    moreover have "n div 3 = 2 ^ 52" by (simp add: neq)
    ultimately show ?thesis unfolding itd nd by (simp add: float_to_int_def)
  next
    case False
    define k where "k = nat (52 - E)"
    have k: "1 \<le> k" "52 - E = int k" "E - 52 = - int k" using E False by (simp_all add: k_def)
    have e: "max (E - 52) (- 1074) = - int k" using E k by simp
    define m where "m = round_half_even (n * 2 ^ k) 3"
    have "int_true_divide (int n) (int 3) = Inr (PyFloat (int m) (- int k))"
      unfolding int_true_divide_pos [OF n(1) zero_less_numeral] E_def [symmetric] e
      using k(1) by (simp add: Let_def m_def)
    moreover have "m div 2 ^ k = n div 3" unfolding m_def using k(1) by (rule round_scaled_div3)
    then have "int m div 2 ^ k = int (n div 3)"
      using zdiv_int [of m "2 ^ k"] by simp
    then have "float_to_int (PyFloat (int m) (- int k)) = int (n div 3)"
      using k(1) by (cases "m = 0") (simp_all add: float_to_int_def)
    ultimately show ?thesis unfolding itd nd by simp
  qed
qed


lemma int_true_divide_nonneg:
  assumes "0 < d" and "int_true_divide (int n) (int d) = Inr x"
  shows "0 \<le> mant x"
proof (cases "n = 0")
  case True
  with assms show ?thesis by (auto simp: int_true_divide_def)
next
  case False
  then have "0 < n" by simp
  from assms(2) show ?thesis
    unfolding int_true_divide_pos [OF \<open>0 < n\<close> assms(1)]
    by (auto simp: Let_def split: if_splits)
qed

lemma float_to_int_nonneg: "0 \<le> mant x \<Longrightarrow> 0 \<le> float_to_int x"
  by (cases "mant x = 0") (simp_all add: float_to_int_def pos_imp_zdiv_nonneg_iff)






lemma int_true_divide_neg:
  assumes "0 < n" "0 < d"
  shows "int_true_divide (- int n) (int d) =
     (case int_true_divide (int n) (int d) of
        Inl e \<Rightarrow> Inl e
      | Inr x \<Rightarrow> Inr (PyFloat (- mant x) (expo x)))"
  using assms by (simp add: int_true_divide_def Let_def)





lemma int_true_divide_pos_returns:
  assumes "0 < n" "0 < d" "n < d * 2 ^ 1023"
  shows "\<exists>x. int_true_divide (int n) (int d) = Inr x"
proof -
  define E where "E = floor_log2 n d"
  define e where "e = max (E - 52) (- 1074)"
  have "real n < real d * 2 powi 1023"
  proof -
    have "real n < real (d * 2 ^ 1023)" using assms(3) by (rule iffD2 [OF of_nat_less_iff])
    then show ?thesis by simp
  qed
  then have E: "E < 1023" unfolding E_def by (rule floor_log2_less [OF assms(1,2)])
  show ?thesis
  proof (cases "0 \<le> e")
    case False
    then show ?thesis
      unfolding int_true_divide_pos [OF assms(1,2)] E_def [symmetric] e_def [symmetric]
      by (simp add: Let_def)
  next
    case True
    define j where "j = nat e"
    have j: "e = int j" "j \<le> 970" "E + 1 = int (j + 53)" using True E by (simp_all add: j_def e_def)
    define m where "m = round_half_even n (d * 2 ^ j)"
    have "real n < real d * 2 powi (E + 1)"
      unfolding E_def by (rule floor_log2_bounds(2) [OF assms(1,2)])
    moreover have "(2::real) powi (int (j + 53)) = 2 ^ (j + 53)" by (rule power_int_of_nat)
    ultimately have "real n < real (d * 2 ^ (j + 53))" unfolding j(3) by simp
    then have "n < d * 2 ^ (j + 53)" by (rule iffD1 [OF of_nat_less_iff])
    then have "n < (d * 2 ^ j) * 2 ^ 53" by (simp add: power_add)
    then have "n div (d * 2 ^ j) < 2 ^ 53" by (simp add: less_mult_imp_div_less)
    moreover have "m \<le> Suc (n div (d * 2 ^ j))"
      unfolding m_def by (rule round_half_even_bounds(2)) (use assms(2) in simp)
    ultimately have "m \<le> 2 ^ 53" by linarith
    then have "m * 2 ^ j \<le> 2 ^ 53 * 2 ^ j" by (rule mult_right_mono) simp
    also have "\<dots> = 2 ^ (53 + j)" by (simp add: power_add)
    also have "\<dots> < 2 ^ 1024" using j(2) by (intro power_strict_increasing) simp_all
    finally have no: "\<not> 2 ^ 1024 \<le> m * 2 ^ j" by (simp only: not_le)
    show ?thesis
      unfolding int_true_divide_pos [OF assms(1,2)] E_def [symmetric] e_def [symmetric] j(1)
      using no by (simp add: Let_def m_def)
  qed
qed

text \<open>The division returns unless the quotient is of the order of \<open>2 ^ 1023\<close> or more.\<close>

lemma int_true_divide_returns:
  assumes "0 < d" "\<bar>a\<bar> < int d * 2 ^ 1023"
  shows "\<exists>x. int_true_divide a (int d) = Inr x"
proof -
  consider "a = 0" | "0 < a" | "a < 0" by linarith
  then show ?thesis
  proof cases
    case 1
    then show ?thesis using assms(1) by (simp add: int_true_divide_def)
  next
    case 2
    define n where "n = nat a"
    have n: "0 < n" "a = int n" using 2 by (simp_all add: n_def)
    have "int n < int (d * 2 ^ 1023)" using assms(2) n(2) by simp
    then have "n < d * 2 ^ 1023" by (rule iffD1 [OF of_nat_less_iff])
    from int_true_divide_pos_returns [OF n(1) assms(1) this] show ?thesis by (simp add: n(2))
  next
    case 3
    define n where "n = nat (- a)"
    have n: "0 < n" "a = - int n" using 3 by (simp_all add: n_def)
    have "int n < int (d * 2 ^ 1023)" using assms(2) n(2) by simp
    then have "n < d * 2 ^ 1023" by (rule iffD1 [OF of_nat_less_iff])
    from int_true_divide_pos_returns [OF n(1) assms(1) this]
    show ?thesis unfolding n(2) int_true_divide_neg [OF n(1) assms(1)] by auto
  qed
qed

lemma int_true_divide_third_returns:
  assumes "int c * 2 < 3 * 2 ^ 1023"
  shows "\<exists>x. int_true_divide (int c * 2) 3 = Inr x"
  using int_true_divide_returns [of 3 "int c * 2"] assms by simp

lemma bit_length_3: "bit_length 3 = 2"
  using bit_length_eq [of 1 3] by simp

section \<open>Properties of the estimate\<close>

text \<open>
  C1, as amended: for every circuit metadata with interaction-gate count \<open>c \<le> 3 * 2 ^ 51\<close>
  and base depth \<open>d\<close>, \<open>estimate_sabre_performance\<close> returns
  \<open>estimated_swaps = floor (c * 2 / 3)\<close> and \<open>estimated_depth = d + 3 * estimated_swaps\<close>;
  the instance with 1000 qubits and 100 interaction gates, which gives 66 and 300, follows
  it. Beyond the bound the double nearest to \<open>c * 2 / 3\<close> need not truncate to the floor.
\<close>

theorem estimate_sabre_performance_floor:
  assumes "num_cx m \<le> 3 * 2 ^ 51"
  shows "estimate_sabre_performance m coupling_map t =
           Inr (\<lfloor>of_nat (num_cx m) * 2 / (3 :: rat)\<rfloor>,
                int (depth m) + 3 * \<lfloor>of_nat (num_cx m) * 2 / (3 :: rat)\<rfloor>, t)"
proof -
  obtain x where x: "int_true_divide (int (num_cx m) * 2) 3 = Inr x"
    "float_to_int x = (int (num_cx m) * 2) div 3"
    using third_floor_exact [OF assms] by blast
  have "\<lfloor>of_int (int (num_cx m) * 2) / (of_int 3 :: rat)\<rfloor> = (int (num_cx m) * 2) div 3"
    by (rule floor_divide_of_int_eq)
  then have "\<lfloor>of_nat (num_cx m) * 2 / (3 :: rat)\<rfloor> = (int (num_cx m) * 2) div 3"
    by simp
  then show ?thesis using x by (simp add: estimate_sabre_performance_def Let_def)
qed

theorem estimate_sabre_performance_floor_witness:
  "estimate_sabre_performance
     (bv_meta 1000 (replicate 100 CHR ''1'' @ replicate 900 CHR ''0'')) () () =
   Inr (66, 300, ())"
proof -
  let ?m = "bv_meta 1000 (replicate 100 CHR ''1'' @ replicate 900 CHR ''0'')"
  have c: "count_list (replicate 100 CHR ''1'' @ replicate 900 CHR ''0'') CHR ''1'' = 100"
    by (simp add: count_list_replicate_other count_list_replicate_same)
  then have m: "num_cx ?m = 100" "depth ?m = 102" by (simp_all add: bv_meta_def)
  have h: "num_cx ?m \<le> 3 * 2 ^ 51" unfolding m by simp
  have "\<lfloor>of_nat 100 * 2 / (3 :: rat)\<rfloor> = 66" by (simp add: floor_eq_iff)
  then show ?thesis
    using estimate_sabre_performance_floor [OF h, of "()" "()"] unfolding m by simp
qed

text \<open>
  The claim as stated, for every count, fails at \<open>c = 3 * 2 ^ 51 + 1\<close>: the exact quotient
  \<open>4503599627370496 + 2/3\<close> lies between two neighbouring doubles and rounds up, so the
  function returns one swap more than the floor. The function reads only \<open>num_cx\<close> and
  \<open>depth\<close> of the dictionary.
\<close>

theorem estimate_sabre_performance_floor_counterexample:
  "estimate_sabre_performance
     \<lparr> n_qubits = 1000, hidden_string = [], num_cx = 6755399441055745,
       depth = 6755399441055747, total_gates = 6755399441057746 \<rparr> () () =
   Inr (4503599627370497, 6755399441055747 + 3 * 4503599627370497, ())
   \<and> \<lfloor>of_nat 6755399441055745 * 2 / (3 :: rat)\<rfloor> = 4503599627370496"
proof -
  have b: "bit_length 13510798882111490 = 54"
    using bit_length_eq [of 53 13510798882111490] by simp
  have "int_true_divide 13510798882111490 3 = Inr (PyFloat 4503599627370497 0)"
    by (simp add: int_true_divide_def floor_log2_def b bit_length_3 round_half_even_def Let_def)
  then show ?thesis
    by (simp add: estimate_sabre_performance_def float_to_int_def floor_eq_iff)
qed

text \<open>
  C9: for every circuit metadata, the estimated depth that \<open>estimate_sabre_performance\<close>
  returns is at least the metadata's base depth. The function returns for every count
  below \<open>3 * 2 ^ 1022\<close>; from about \<open>2 ^ 1024\<close> on the float division raises and there is no
  estimate.
\<close>

theorem estimated_depth_ge_base_depth:
  "(estimate_sabre_performance m coupling_map t = Inr (s, d, t') \<longrightarrow> int (depth m) \<le> d)
   \<and> (int (num_cx m) * 2 < 3 * 2 ^ 1023 \<longrightarrow>
        (\<exists>s d. estimate_sabre_performance m coupling_map t = Inr (s, d, t)
           \<and> int (depth m) \<le> d))"
proof -
  have nonneg: "0 \<le> float_to_int x" if "int_true_divide (int (num_cx m) * 2) 3 = Inr x" for x
  proof -
    have "int_true_divide (int (2 * num_cx m)) (int 3) = Inr x"
      using that by (simp add: mult.commute)
    then have "0 \<le> mant x" by (rule int_true_divide_nonneg [rotated]) simp
    then show ?thesis by (rule float_to_int_nonneg)
  qed
  have a: "int (depth m) \<le> d" if "estimate_sabre_performance m coupling_map t = Inr (s, d, t')"
    for s d t'
    using that nonneg
    by (auto simp: estimate_sabre_performance_def Let_def split: sum.splits)
  have b: "\<exists>s d. estimate_sabre_performance m coupling_map t = Inr (s, d, t)
      \<and> int (depth m) \<le> d" if small: "int (num_cx m) * 2 < 3 * 2 ^ 1023"
  proof -
    obtain x where x: "int_true_divide (int (num_cx m) * 2) 3 = Inr x"
      using int_true_divide_third_returns [OF small] by blast
    then have "estimate_sabre_performance m coupling_map t =
        Inr (float_to_int x, int (depth m) + float_to_int x * 3, t)"
      by (simp add: estimate_sabre_performance_def Let_def)
    with a show ?thesis by blast
  qed
  from a b show ?thesis by blast
qed

theorem estimated_depth_ge_base_depth_witness:
  "\<exists>s d. estimate_sabre_performance (bv_meta 5 ''10100'') () () = Inr (s, d, ())
     \<and> int (depth (bv_meta 5 ''10100'')) \<le> d \<and> depth (bv_meta 5 ''10100'') = 4"
proof -
  have h: "int (num_cx (bv_meta 5 ''10100'')) * 2 < 3 * 2 ^ 1023"
    by (simp add: bv_meta_def)
  show ?thesis
    using estimated_depth_ge_base_depth [of "bv_meta 5 ''10100''" "()" "()"] h
    by (simp add: bv_meta_def)
qed

section \<open>Properties of the multi-trial transpile\<close>

lemma num_less_trans: "a < b \<Longrightarrow> num_less b bs \<Longrightarrow> num_less a bs"
  by (cases bs) simp_all

lemma num_less_not: "num_less a bs \<Longrightarrow> \<not> num_less b bs \<Longrightarrow> a < b"
  by (cases bs) simp_all

lemma best_step_simps:
  "num_less (count_swaps c) bs \<Longrightarrow> best_step c (bc, bs) = (Some c, PyInt (count_swaps c))"
  "\<not> num_less (count_swaps c) bs \<Longrightarrow> best_step c (bc, bs) = (bc, bs)"
  by (simp_all add: best_step_def)

lemma sabre_trials_all_return:
  "invocations env cm qc k w = (map Inr cs, w') \<Longrightarrow>
     sabre_trials env cm qc k w best = (Inr (fold best_step cs best), w')"
proof (induction k arbitrary: w cs best)
  case 0
  then show ?case by simp
next
  case (Suc k)
  obtain r w1 where r: "pass_manager_run env cm w qc = (r, w1)" by (cases "pass_manager_run env cm w qc")
  obtain rs w2 where rs: "invocations env cm qc k w1 = (rs, w2)"
    by (cases "invocations env cm qc k w1")
  from Suc.prems r rs have eq: "r # rs = map Inr cs" "w2 = w'" by simp_all
  then obtain c cs' where cs: "cs = c # cs'" "r = Inr c" "rs = map Inr cs'"
    by (cases cs) auto
  have ih: "sabre_trials env cm qc k w1 b = (Inr (fold best_step cs' b), w')" for b
    using Suc.IH [of w1 cs' b] rs cs(3) eq(2) by simp
  obtain bc bs where best: "best = (bc, bs)" by (cases best)
  show ?case
    using r cs ih by (simp add: best best_step_simps Let_def)
qed

lemma fold_best_step:
  "fold best_step cs (bc, bs) = (bc', bs') \<Longrightarrow>
     ((bc', bs') = (bc, bs) \<and> (\<forall>i<length cs. \<not> num_less (count_swaps (cs ! i)) bs))
   \<or> (\<exists>j<length cs. bc' = Some (cs ! j) \<and> bs' = PyInt (count_swaps (cs ! j))
         \<and> num_less (count_swaps (cs ! j)) bs
         \<and> (\<forall>i<length cs. count_swaps (cs ! j) \<le> count_swaps (cs ! i))
         \<and> (\<forall>i<j. count_swaps (cs ! j) < count_swaps (cs ! i)))"
proof (induction cs arbitrary: bc bs)
  case Nil
  then show ?case by simp
next
  case (Cons c cs)
  show ?case
  proof (cases "num_less (count_swaps c) bs")
    case True
    then have "fold best_step cs (Some c, PyInt (count_swaps c)) = (bc', bs')"
      using Cons.prems by (simp add: best_step_simps)
    from Cons.IH [OF this] show ?thesis
    proof (elim disjE conjE exE)
      assume "(bc', bs') = (Some c, PyInt (count_swaps c))"
        and "\<forall>i<length cs. \<not> num_less (count_swaps (cs ! i)) (PyInt (count_swaps c))"
      then have "0 < length (c # cs) \<and> bc' = Some ((c # cs) ! 0)
          \<and> bs' = PyInt (count_swaps ((c # cs) ! 0))
          \<and> num_less (count_swaps ((c # cs) ! 0)) bs
          \<and> (\<forall>i<length (c # cs). count_swaps ((c # cs) ! 0) \<le> count_swaps ((c # cs) ! i))
          \<and> (\<forall>i<0. count_swaps ((c # cs) ! 0) < count_swaps ((c # cs) ! i))"
        using True by (simp add: All_less_Suc2 not_less)
      then show ?thesis by blast
    next
      fix j
      assume j: "j < length cs" "bc' = Some (cs ! j)" "bs' = PyInt (count_swaps (cs ! j))"
        "num_less (count_swaps (cs ! j)) (PyInt (count_swaps c))"
        "\<forall>i<length cs. count_swaps (cs ! j) \<le> count_swaps (cs ! i)"
        "\<forall>i<j. count_swaps (cs ! j) < count_swaps (cs ! i)"
      then have lt: "count_swaps (cs ! j) < count_swaps c" by simp
      then have "num_less (count_swaps (cs ! j)) bs" using True by (rule num_less_trans)
      then have "Suc j < length (c # cs) \<and> bc' = Some ((c # cs) ! Suc j)
          \<and> bs' = PyInt (count_swaps ((c # cs) ! Suc j))
          \<and> num_less (count_swaps ((c # cs) ! Suc j)) bs
          \<and> (\<forall>i<length (c # cs). count_swaps ((c # cs) ! Suc j) \<le> count_swaps ((c # cs) ! i))
          \<and> (\<forall>i<Suc j. count_swaps ((c # cs) ! Suc j) < count_swaps ((c # cs) ! i))"
        using j lt by (simp add: All_less_Suc2)
      then show ?thesis by blast
    qed
  next
    case False
    then have "fold best_step cs (bc, bs) = (bc', bs')"
      using Cons.prems by (simp add: best_step_simps)
    from Cons.IH [OF this] show ?thesis
    proof (elim disjE conjE exE)
      assume "(bc', bs') = (bc, bs)"
        and "\<forall>i<length cs. \<not> num_less (count_swaps (cs ! i)) bs"
      then show ?thesis using False by (simp add: All_less_Suc2)
    next
      fix j
      assume j: "j < length cs" "bc' = Some (cs ! j)" "bs' = PyInt (count_swaps (cs ! j))"
        "num_less (count_swaps (cs ! j)) bs"
        "\<forall>i<length cs. count_swaps (cs ! j) \<le> count_swaps (cs ! i)"
        "\<forall>i<j. count_swaps (cs ! j) < count_swaps (cs ! i)"
      from j(4) False have lt: "count_swaps (cs ! j) < count_swaps c" by (rule num_less_not)
      have "Suc j < length (c # cs) \<and> bc' = Some ((c # cs) ! Suc j)
          \<and> bs' = PyInt (count_swaps ((c # cs) ! Suc j))
          \<and> num_less (count_swaps ((c # cs) ! Suc j)) bs
          \<and> (\<forall>i<length (c # cs). count_swaps ((c # cs) ! Suc j) \<le> count_swaps ((c # cs) ! i))
          \<and> (\<forall>i<Suc j. count_swaps ((c # cs) ! Suc j) < count_swaps ((c # cs) ! i))"
        using j lt by (simp add: All_less_Suc2)
      then show ?thesis by blast
    qed
  qed
qed

lemma invocations_length: "invocations env cm qc k w = (rs, w') \<Longrightarrow> length rs = k"
  by (induction k arbitrary: w rs) (auto split: prod.splits)

text \<open>
  C7: for every \<open>num_trials \<ge> 1\<close> whose optimizer invocations all return, returning the
  circuits \<open>cs\<close> in this order, the multi-trial \<open>transpile_with_sabre\<close> returns the circuit
  of some trial \<open>j\<close> together with its swap count; that count is the minimum over all
  \<open>num_trials\<close> trials, and every earlier trial has strictly more swaps.
\<close>

theorem transpile_with_sabre_minimum:
  assumes "1 \<le> num_trials"
    and "invocations env cm qc (nat num_trials) w = (map Inr cs, w')"
  shows "int (length cs) = num_trials \<and>
     (\<exists>j<length cs.
        transpile_with_sabre env qc cm num_trials w =
          (Inr (Some (cs ! j), PyInt (count_swaps (cs ! j)), elapsed env w w'), w')
        \<and> (\<forall>i<length cs. count_swaps (cs ! j) \<le> count_swaps (cs ! i))
        \<and> (\<forall>i<j. count_swaps (cs ! j) < count_swaps (cs ! i)))"
proof -
  have len: "length cs = nat num_trials"
    using invocations_length [OF assms(2)] by simp
  then have pos: "0 < length cs" using assms(1) by simp
  obtain bc' bs' where f: "fold best_step cs (None, PyInf) = (bc', bs')"
    by (cases "fold best_step cs (None, PyInf)")
  have run: "sabre_trials env cm qc (nat num_trials) w (None, PyInf) = (Inr (bc', bs'), w')"
    using sabre_trials_all_return [OF assms(2), of "(None, PyInf)"] f by simp
  from fold_best_step [OF f] pos obtain j where j: "j < length cs" "bc' = Some (cs ! j)"
    "bs' = PyInt (count_swaps (cs ! j))"
    "\<forall>i<length cs. count_swaps (cs ! j) \<le> count_swaps (cs ! i)"
    "\<forall>i<j. count_swaps (cs ! j) < count_swaps (cs ! i)"
    by auto
  have "transpile_with_sabre env qc cm num_trials w =
      (Inr (Some (cs ! j), PyInt (count_swaps (cs ! j)), elapsed env w w'), w')"
    using run j(2,3) by (simp add: transpile_with_sabre_def)
  with j show ?thesis using len assms(1) by auto
qed

text \<open>
  C10: called with \<open>num_trials = 0\<close>, the multi-trial \<open>transpile_with_sabre\<close> returns \<open>None\<close>
  and \<open>float('inf')\<close> and leaves the outside state as it was, whatever the optimizer would
  have done (it is never invoked); building the result dictionary of
  \<open>benchmark_qv_circuits\<close> from that return value raises \<open>AttributeError\<close>.
\<close>

theorem transpile_with_sabre_zero_trials:
  "transpile_with_sabre env qc cm 0 w = (Inr (None, PyInf, elapsed env w w), w)
   \<and> transpile_with_sabre (env\<lparr>pass_manager_run := run\<rparr>) qc cm 0 w =
       transpile_with_sabre env qc cm 0 w
   \<and> qv_record env qc params (None, PyInf, elapsed env w w) = Inl AttributeError"
  by (simp add: transpile_with_sabre_def qv_record_def split: prod.splits)

lemma count_swaps_example_circuit: "count_swaps (example_circuit k) = int k"
proof -
  have "fold (\<lambda>instruction swap_count.
             if operation_name instruction = ''swap'' then swap_count + 1 else swap_count)
          (replicate k (gate ''swap'' [0, 1])) a = a + int k" for a :: int
    by (induction k arbitrary: a) (simp_all add: gate_def)
  then show ?thesis by (simp add: count_swaps_def example_circuit_def)
qed

theorem transpile_with_sabre_minimum_witness:
  "transpile_with_sabre
     (example_env (\<lambda>w. Inr (example_circuit ([2, 1, 1] ! w)))) (example_circuit 0) [] 3 0 =
   (Inr (Some (example_circuit 1), PyInt 1, PyFloat 3 0), 3)"
proof -
  let ?env = "example_env (\<lambda>w. Inr (example_circuit ([2, 1, 1] ! w)))"
  let ?cs = "[example_circuit 2, example_circuit 1, example_circuit 1]"
  have h1: "(1::int) \<le> 3" by simp
  have h2: "invocations ?env [] (example_circuit 0) (nat 3) 0 = (map Inr ?cs, 3)"
    by (simp add: example_env_def numeral_3_eq_3)
  from transpile_with_sabre_minimum [OF h1 h2]
  have "\<exists>j<length ?cs.
      transpile_with_sabre ?env (example_circuit 0) [] 3 0 =
        (Inr (Some (?cs ! j), PyInt (count_swaps (?cs ! j)), elapsed ?env 0 3), 3)
      \<and> (\<forall>i<length ?cs. count_swaps (?cs ! j) \<le> count_swaps (?cs ! i))
      \<and> (\<forall>i<j. count_swaps (?cs ! j) < count_swaps (?cs ! i))"
    by (rule conjunct2)
  then obtain j where j: "j < length ?cs"
    "transpile_with_sabre ?env (example_circuit 0) [] 3 0 =
       (Inr (Some (?cs ! j), PyInt (count_swaps (?cs ! j)), elapsed ?env 0 3), 3)"
    "\<forall>i<length ?cs. count_swaps (?cs ! j) \<le> count_swaps (?cs ! i)"
    "\<forall>i<j. count_swaps (?cs ! j) < count_swaps (?cs ! i)"
    by blast
  from j(1) have "j = 0 \<or> j = 1 \<or> j = 2" by auto
  then have "j = 1"
  proof (elim disjE)
    assume "j = 0"
    with j(3) have "1 < length ?cs \<longrightarrow> count_swaps (?cs ! 0) \<le> count_swaps (?cs ! 1)" by blast
    then have "count_swaps (?cs ! 0) \<le> count_swaps (?cs ! 1)" by simp
    then show ?thesis by (simp add: count_swaps_example_circuit)
  next
    assume "j = 1"
    then show ?thesis .
  next
    assume "j = 2"
    with j(4) have "(1::nat) < 2 \<longrightarrow> count_swaps (?cs ! 2) < count_swaps (?cs ! 1)" by blast
    then have "count_swaps (?cs ! 2) < count_swaps (?cs ! 1)" by simp
    then show ?thesis by (simp add: count_swaps_example_circuit)
  qed
  with j(2) show ?thesis
    by (simp add: count_swaps_example_circuit) (simp add: example_env_def)
qed

section \<open>Properties of the sweeps\<close>

lemma random_string_length: "random_string env n w = (hs, w') \<Longrightarrow> length hs = n"
  by (induction n arbitrary: w hs) (auto split: prod.splits)

lemma create_bv_circuit_None:
  "\<exists>qc hs w'. create_bv_circuit env n None w = Inr ((qc, hs), w') \<and> length hs = n"
proof -
  obtain hs w' where r: "random_string env n w = (hs, w')" by (cases "random_string env n w")
  then have "length hs = n" by (rule random_string_length)
  with r show ?thesis by (simp add: create_bv_circuit_def)
qed

lemma bv_inner_append:
  "bv_inner env cm num n (xs @ ys) st =
     (case bv_inner env cm num n xs st of Inl e \<Rightarrow> Inl e | Inr st' \<Rightarrow> bv_inner env cm num n ys st')"
proof (induction env cm num n xs st rule: bv_inner.induct)
  case (1 env cm num n st)
  then show ?case by simp
next
  case (2 env cm num n i rest w results out)
  then show ?case
    by (simp add: Let_def split: sum.splits prod.splits)
qed

lemma qv_loop_append:
  "qv_loop env cm len i (xs @ ys) st =
     (case qv_loop env cm len i xs st of
        Inl e \<Rightarrow> Inl e
      | Inr st' \<Rightarrow> qv_loop env cm len (i + length xs) ys st')"
proof (induction env cm len i xs st rule: qv_loop.induct)
  case (1 env cm len i st)
  then show ?case by simp
next
  case (2 env cm len i qc params rest w results out)
  then show ?case
    by (simp add: Let_def split: sum.splits prod.splits)
qed

lemma bv_inner_returns:
  "\<exists>w' results' out'. bv_inner env cm num n is (w, results, out) = Inr (w', results', out')
     \<and> length results' + length (filter is_bv_error out')
       = length results + length (filter is_bv_error out) + length is"
proof (induction "is" arbitrary: w results out)
  case Nil
  then show ?case by simp
next
  case (Cons i rest)
  obtain qc hs w1 where c: "create_bv_circuit env n None w = Inr ((qc, hs), w1)"
    using create_bv_circuit_None [of env n w] by blast
  obtain r w2 where t: "transpile_with_sabre_bv env qc cm w1 = (r, w2)"
    by (cases "transpile_with_sabre_bv env qc cm w1")
  show ?case
  proof (cases r)
    case (Inl e)
    with c t Cons.IH [of w2 results "out @ [Bv_circuit (i + 1) num hs] @ [Bv_error e]"]
    show ?thesis by (auto simp: Let_def)
  next
    case (Inr ret)
    obtain tq tm sw where ret: "ret = (tq, tm, sw)" by (cases ret)
    define result where "result =
       \<lparr> qubits = n, circuit_idx = i, bv_hidden_string = hs,
         swap_count = sw, transpile_time = tm,
         original_depth = circuit_depth env qc,
         transpiled_depth = circuit_depth env tq,
         original_size = length (data qc),
         transpiled_size = length (data tq) \<rparr>"
    from c t Inr ret
      Cons.IH [of w2 "results @ [result]" "out @ [Bv_circuit (i + 1) num hs] @ [Bv_result result]"]
    show ?thesis by (auto simp: Let_def result_def)
  qed
qed

lemma bv_outer_returns:
  "\<exists>w' results' out'. bv_outer env cm num ns (w, results, out) = Inr (w', results', out')
     \<and> length results' + length (filter is_bv_error out')
       = length results + length (filter is_bv_error out) + num * length ns"
proof (induction ns arbitrary: w results out)
  case Nil
  then show ?case by simp
next
  case (Cons n rest)
  obtain w1 results1 out1 where
    i: "bv_inner env cm num n [0..<num] (w, results, out @ [Bv_testing n]) = Inr (w1, results1, out1)"
    and il: "length results1 + length (filter is_bv_error out1)
       = length results + length (filter is_bv_error (out @ [Bv_testing n]))
         + length [0..<num]"
    using bv_inner_returns [of env cm num n "[0..<num]" w results "out @ [Bv_testing n]"] by blast
  from Cons.IH [of w1 results1 out1] i il show ?case by auto
qed

text \<open>
  C2, as amended. In the Bernstein-Vazirani sweep, when the transpile call of an iteration
  raises, the sweep goes on with the remaining iterations from a state whose list of
  results is unchanged and whose output has the line of the error; whatever the optimizer
  does, the sweep runs to its end, and it adds one record or one error line per
  configuration. In the Quantum Volume sweep nothing catches the error: it leaves the
  loop and \<open>benchmark_qv_circuits\<close>, and the remaining circuits are not processed.
\<close>

theorem sweep_error_handling:
  "(bv_inner env cm num n pre st0 = Inr (w, results, out)
      \<and> create_bv_circuit env n None w = Inr ((qc, hs), w1)
      \<and> transpile_with_sabre_bv env qc cm w1 = (Inl e, w2)
    \<longrightarrow> bv_inner env cm num n (pre @ i # post) st0 =
          bv_inner env cm num n post
            (w2, results, out @ [Bv_circuit (i + 1) num hs, Bv_error e]))
   \<and> (\<exists>w' results' out'. bv_outer env cm num ns (w0, results0, out0) = Inr (w', results', out')
         \<and> length results' + length (filter is_bv_error out')
           = length results0 + length (filter is_bv_error out0) + num * length ns)
   \<and> (qv_loop env cm len k qpre qst0 = Inr (qw, qresults, qout)
        \<and> transpile_with_sabre env qqc cm 1 qw = (Inl e', qw')
      \<longrightarrow> qv_loop env cm len k (qpre @ (qqc, params) # qpost) qst0 = Inl e')"
proof (intro conjI impI)
  assume "bv_inner env cm num n pre st0 = Inr (w, results, out)
      \<and> create_bv_circuit env n None w = Inr ((qc, hs), w1)
      \<and> transpile_with_sabre_bv env qc cm w1 = (Inl e, w2)"
  then show "bv_inner env cm num n (pre @ i # post) st0 =
      bv_inner env cm num n post (w2, results, out @ [Bv_circuit (i + 1) num hs, Bv_error e])"
    by (simp add: bv_inner_append)
next
  show "\<exists>w' results' out'. bv_outer env cm num ns (w0, results0, out0) = Inr (w', results', out')
         \<and> length results' + length (filter is_bv_error out')
           = length results0 + length (filter is_bv_error out0) + num * length ns"
    by (rule bv_outer_returns)
next
  assume "qv_loop env cm len k qpre qst0 = Inr (qw, qresults, qout)
      \<and> transpile_with_sabre env qqc cm 1 qw = (Inl e', qw')"
  then show "qv_loop env cm len k (qpre @ (qqc, params) # qpost) qst0 = Inl e'"
    by (simp add: qv_loop_append)
qed

lemma example_env_simps:
  "pass_manager_run (example_env outcome) cm w qc = (outcome w, Suc w)"
  "circuit_depth (example_env outcome) qc = int (length (data qc))"
  "quantum_volume (example_env outcome) nq dp seed = example_circuit 0"
  "washington_coupling_map (example_env outcome) = [(0, 1)]"
  "random_choice (example_env outcome) w s = (hd s, w)"
  "elapsed (example_env outcome) w w' = PyFloat (int w' - int w) 0"
  "float_average (example_env outcome) ts = PyFloat 0 0"
  by (simp_all add: example_env_def)

theorem sweep_error_handling_witness:
  "bv_inner (example_env (fails_at 0)) [(0, 1)] 5 1 [0, 1] (0, [], [Bv_running]) =
     bv_inner (example_env (fails_at 0)) [(0, 1)] 5 1 [1]
       (1, [], [Bv_running, Bv_circuit 1 5 ''0'', Bv_error (Exception ''routing failed'')])
   \<and> (\<exists>results' out'.
         bv_inner (example_env (fails_at 0)) [(0, 1)] 5 1 [1]
           (1, [], [Bv_running, Bv_circuit 1 5 ''0'', Bv_error (Exception ''routing failed'')]) =
           Inr (2, results', out')
         \<and> map circuit_idx results' = [1]
         \<and> filter is_bv_error out' = [Bv_error (Exception ''routing failed'')])
   \<and> (\<exists>w' results' out'.
         bv_outer (example_env (fails_at 0)) [(0, 1)] 5 [5, 10, 15, 20, 25, 30, 35, 40, 45, 50]
           (0, [], [Bv_running]) = Inr (w', results', out')
         \<and> length results' + length (filter is_bv_error out') = 50)
   \<and> qv_loop (example_env (fails_at 0)) [(0, 1)] 2 0
        [(example_circuit 0, (10, 10, 0)), (example_circuit 0, (10, 10, 1))] (0, [], []) =
      Inl (Exception ''routing failed'')"
proof -
  let ?env = "example_env (fails_at 0)"
  let ?qc = "\<lparr> num_qubits = 2, num_clbits = 1,
               data = [gate ''x'' [1], gate ''h'' [0], gate ''h'' [1], gate ''h'' [0],
                       \<lparr> operation_name = ''measure'', qargs = [0], cargs = [0] \<rparr>] \<rparr>"
  let ?x = "Exception ''routing failed''"
  have c: "create_bv_circuit ?env 1 None w = Inr ((?qc, ''0''), w)" for w
    by (simp add: create_bv_circuit_def example_env_simps upt_rec)
  have tr: "transpile_with_sabre_bv ?env ?qc [(0, 1)] 0 = (Inl ?x, 1)"
    by (simp add: transpile_with_sabre_bv_def example_env_simps fails_at_def)
  have h1: "bv_inner ?env [(0, 1)] 5 1 [] (0, [], [Bv_running]) = Inr (0, [], [Bv_running])
      \<and> create_bv_circuit ?env 1 None 0 = Inr ((?qc, ''0''), 0)
      \<and> transpile_with_sabre_bv ?env ?qc [(0, 1)] 0 = (Inl ?x, 1)"
    using c tr by simp
  have h3: "qv_loop ?env [(0, 1)] 2 0 [] (0, [], []) = Inr (0, [], [])
      \<and> transpile_with_sabre ?env (example_circuit 0) [(0, 1)] 1 0 = (Inl ?x, 1)"
    by (simp add: transpile_with_sabre_def example_env_simps fails_at_def)
  note t = sweep_error_handling [where env = ?env and cm = "[(0, 1)]" and num = 5 and n = 1
      and pre = "[]" and ?st0.0 = "(0, [], [Bv_running])" and w = 0 and results = "[]"
      and out = "[Bv_running]" and qc = ?qc and hs = "''0''" and ?w1.0 = 0 and e = ?x
      and ?w2.0 = 1 and i = 0 and post = "[1]" and ?w0.0 = 0 and ?results0.0 = "[]"
      and ?out0.0 = "[Bv_running]" and ns = "[5, 10, 15, 20, 25, 30, 35, 40, 45, 50]"
      and len = 2 and k = 0 and qpre = "[]" and ?qst0.0 = "(0, [], [])" and qw = 0
      and qresults = "[]" and qout = "[]" and qqc = "example_circuit 0" and e' = ?x
      and qw' = 1 and params = "(10, 10, 0)" and qpost = "[(example_circuit 0, (10, 10, 1))]"]
  have a: "bv_inner ?env [(0, 1)] 5 1 ([] @ 0 # [1]) (0, [], [Bv_running]) =
     bv_inner ?env [(0, 1)] 5 1 [1] (1, [], [Bv_running] @ [Bv_circuit (0 + 1) 5 ''0'', Bv_error ?x])"
    using t [THEN conjunct1] h1 by (rule mp)
  have tr1: "transpile_with_sabre_bv ?env ?qc [(0, 1)] 1 =
      (Inr (example_circuit 1, PyFloat 1 0, 1), 2)"
    by (simp add: transpile_with_sabre_bv_def example_env_simps fails_at_def
        count_swaps_example_circuit)
  have b: "\<exists>results' out'.
      bv_inner ?env [(0, 1)] 5 1 [1]
        (1, [], [Bv_running, Bv_circuit 1 5 ''0'', Bv_error ?x]) = Inr (2, results', out')
      \<and> map circuit_idx results' = [1]
      \<and> filter is_bv_error out' = [Bv_error ?x]"
    by (simp add: c [unfolded One_nat_def] tr1 [unfolded One_nat_def] Let_def)
  have d: "qv_loop ?env [(0, 1)] 2 0
        ([] @ (example_circuit 0, (10, 10, 0)) # [(example_circuit 0, (10, 10, 1))]) (0, [], []) =
      Inl ?x"
    using t [THEN conjunct2, THEN conjunct2] h3 by (rule mp)
  have a': "bv_inner ?env [(0, 1)] 5 1 [0, 1] (0, [], [Bv_running]) =
     bv_inner ?env [(0, 1)] 5 1 [1] (1, [], [Bv_running, Bv_circuit 1 5 ''0'', Bv_error ?x])"
    using a by (simp only: append_Nil append_Cons add_0)
  have d': "qv_loop ?env [(0, 1)] 2 0
        [(example_circuit 0, (10, 10, 0)), (example_circuit 0, (10, 10, 1))] (0, [], []) = Inl ?x"
    using d by (simp only: append_Nil)
  have c': "\<exists>w' results' out'.
         bv_outer ?env [(0, 1)] 5 [5, 10, 15, 20, 25, 30, 35, 40, 45, 50]
           (0, [], [Bv_running]) = Inr (w', results', out')
         \<and> length results' + length (filter is_bv_error out') = 50"
    using t [THEN conjunct2, THEN conjunct1] by simp
  from a' b d' c' show ?thesis by (intro conjI)
qed

lemma generate_qv_circuits_Cons:
  "\<exists>c cs p ps. generate_qv_circuits env (n # ns) (d # ds) (Suc k) = (c # cs, p # ps)"
  by (simp add: generate_qv_circuits_def upt_conv_Cons Let_def del: upt_Suc)

text \<open>
  The claim as stated, for every benchmark sweep, fails on the Quantum Volume sweep: when
  the first call of the optimizer raises, \<open>benchmark_qv_circuits\<close> raises the same error.
\<close>

theorem benchmark_qv_circuits_error_counterexample:
  "benchmark_qv_circuits (example_env (fails_at 0)) 0 = Inl (Exception ''routing failed'')"
proof -
  let ?env = "example_env (fails_at 0)"
  have first: "qv_loop ?env cm len 0 ((qc, params) # rest) (0, results, out) =
      Inl (Exception ''routing failed'')" for cm len qc params rest results out
    by (simp add: transpile_with_sabre_def example_env_simps fails_at_def)
  have "Suc 9 = 10" by simp
  then obtain c cs p ps where
    g: "generate_qv_circuits ?env [10, 15, 20, 25, 30] [10, 15, 20, 25] 10 = (c # cs, p # ps)"
    using generate_qv_circuits_Cons [of ?env 10 "[15, 20, 25, 30]" 10 "[15, 20, 25]" 9]
    by auto
  show ?thesis
    unfolding benchmark_qv_circuits_def Let_def g prod.case zip_Cons_Cons by (rule first)
qed

section \<open>Properties of the summary\<close>




section \<open>Properties of the calibration snapshots\<close>
















end
